theory Spec2Isabelle
  imports Main "HOL-Library.Word"
begin

unbundle bit_operations_syntax

section \<open>The SM3 incremental digest of sm3.go\<close>

subsection \<open>Data model\<close>

type_synonym byte = "8 word"
type_synonym uint32 = "32 word"
type_synonym uint64 = "64 word"

text \<open>The Go array type \<open>[8]uint32\<close>: exactly eight words, by type.\<close>

type_synonym state8 =
  "uint32 \<times> uint32 \<times> uint32 \<times> uint32 \<times> uint32 \<times> uint32 \<times> uint32 \<times> uint32"

text \<open>
  The single-block compression transform (state and one 64-byte block to the next state)
  is not part of sm3.go; every definition below takes it as the parameter \<open>tf\<close>, and
  every theorem holds for any transform.
\<close>

type_synonym transform = "state8 \<Rightarrow> byte list \<Rightarrow> state8"

text \<open>Run-time panics of the Go code, as values.\<close>

datatype error = SliceBounds | IndexOutOfRange | Panic string

text \<open>Sequencing of calls that may panic: the first panic ends the computation.\<close>

definition and_then :: "error + 'a \<Rightarrow> ('a \<Rightarrow> error + 'b) \<Rightarrow> error + 'b" where
  "and_then r f = (case r of Inl e \<Rightarrow> Inl e | Inr v \<Rightarrow> f v)"

definition Size :: int where
  "Size = 32"

definition BlockSize :: int where
  "BlockSize = 64"

definition chunk :: int where
  "chunk = BlockSize"

definition iv :: state8 where
  "iv = (0x7380166f, 0x4914b2b9, 0x172442d7, 0xda8a0600,
         0xa96f30bc, 0x163138aa, 0xe38dee4d, 0xb0fb0e4e)"

text \<open>
  \<open>type digest struct { h [8]uint32; x [chunk]byte; nx int; len uint64 }\<close>.
  The array \<open>x\<close> is a list (of length 64 in every state the program can build),
  \<open>nx\<close> is Go's signed \<open>int\<close>, \<open>len\<close> wraps around at \<open>2 ^ 64\<close>.
\<close>

record digest =
  h :: state8
  x :: "byte list"
  nx :: int
  len :: uint64

text \<open>The zero value of the struct: what \<open>new(digest)\<close> and \<open>var d digest\<close> give.\<close>

definition zero_digest :: digest where
  "zero_digest = \<lparr>h = (0, 0, 0, 0, 0, 0, 0, 0), x = replicate 64 0, nx = 0, len = 0\<rparr>"

subsection \<open>The block driver\<close>

text \<open>
  Modelled from the spec: the function \<open>block(d, p)\<close> that sm3.go calls is defined in
  another file of the repository. The spec describes it: input, while at least 64 bytes
  remain, is consumed in 64-byte chunks by repeated calls of the compression transform,
  which alone mutates the eight state words, one block at a time, in order.
\<close>

fun blocks :: "transform \<Rightarrow> state8 \<Rightarrow> byte list \<Rightarrow> state8" where
  "blocks tf s p = (if length p < 64 then s else blocks tf (tf s (take 64 p)) (drop 64 p))"

declare blocks.simps [simp del]

definition block :: "transform \<Rightarrow> digest \<Rightarrow> byte list \<Rightarrow> digest" where
  "block tf d p = d\<lparr>h := blocks tf (h d) p\<rparr>"

subsection \<open>Slices and the built-in copy\<close>

text \<open>
  \<open>copy(dst[off:], src)\<close> on the array \<open>dst\<close>: it copies
  \<open>min(len(dst) - off, len(src))\<close> bytes, leaves the rest of \<open>dst\<close> as it was, and
  returns the number of bytes copied. The result is the array after the copy and that number.
\<close>

definition copy_at :: "byte list \<Rightarrow> nat \<Rightarrow> byte list \<Rightarrow> byte list \<times> int" where
  "copy_at dst off src =
     (let n = min (length dst - off) (length src)
      in (take off dst @ take n src @ drop (off + n) dst, int n))"

text \<open>The slice expression \<open>a[0:k]\<close>, which panics when \<open>k\<close> exceeds the capacity.\<close>

definition slice_to :: "byte list \<Rightarrow> nat \<Rightarrow> error + byte list" where
  "slice_to a k = (if k \<le> length a then Inr (take k a) else Inl SliceBounds)"

subsection \<open>Byte-order helpers\<close>

text \<open>
  \<open>putUint64(x, s)\<close>: the bounds check \<open>_ = x[7]\<close>, then eight big-endian bytes at the
  front of \<open>x\<close>.
\<close>

definition putUint64 :: "byte list \<Rightarrow> uint64 \<Rightarrow> error + byte list" where
  "putUint64 a s =
     (if length a \<le> 7 then Inl IndexOutOfRange
      else Inr (a[0 := ucast (drop_bit 56 s),
                  1 := ucast (drop_bit 48 s),
                  2 := ucast (drop_bit 40 s),
                  3 := ucast (drop_bit 32 s),
                  4 := ucast (drop_bit 24 s),
                  5 := ucast (drop_bit 16 s),
                  6 := ucast (drop_bit 8 s),
                  7 := ucast s]))"

text \<open>
  \<open>putUint32(a[off:], s)\<close>: the slice expression panics when \<open>off\<close> is beyond the array,
  the bounds check \<open>_ = x[3]\<close> when fewer than four bytes remain; then four big-endian
  bytes are stored at \<open>off\<close>.
\<close>

definition putUint32 :: "byte list \<Rightarrow> nat \<Rightarrow> uint32 \<Rightarrow> error + byte list" where
  "putUint32 a off s =
     (if length a < off then Inl SliceBounds
      else if length a - off \<le> 3 then Inl IndexOutOfRange
      else Inr (a[off := ucast (drop_bit 24 s),
                  off + 1 := ucast (drop_bit 16 s),
                  off + 2 := ucast (drop_bit 8 s),
                  off + 3 := ucast s]))"

subsection \<open>The methods of the digest\<close>

definition Reset :: "digest \<Rightarrow> digest" where
  "Reset d = d\<lparr>h := iv, nx := 0, len := 0\<rparr>"

definition New :: digest where
  "New = Reset zero_digest"

text \<open>
  \<open>Write\<close> returns the digest after the call and the count \<open>nn\<close>; \<open>Inl\<close> is a panic
  (the Go error result is always nil: the function never assigns it).
\<close>

definition Write :: "transform \<Rightarrow> digest \<Rightarrow> byte list \<Rightarrow> error + (digest \<times> int)" where
  "Write tf d0 p0 =
     (let nn = int (length p0);
          d1 = d0\<lparr>len := len d0 + of_nat (length p0)\<rparr>
      in and_then
           (if nx d1 > 0 then
              (if int (length (x d1)) < nx d1 then Inl SliceBounds
               else
                 let (x', n) = copy_at (x d1) (nat (nx d1)) p0;
                     d2 = d1\<lparr>x := x', nx := nx d1 + n\<rparr>;
                     d3 = (if nx d2 = chunk then (block tf d2 (x d2))\<lparr>nx := 0\<rparr> else d2)
                 in Inr (d3, drop (nat n) p0))
            else Inr (d1, p0))
           (\<lambda>(d3, p1).
              let (d4, p2) =
                    (if int (length p1) \<ge> chunk then
                       let n = (int (length p1)) AND NOT (chunk - 1)
                       in (block tf d3 (take (nat n) p1), drop (nat n) p1)
                     else (d3, p1));
                  d5 = (if length p2 > 0
                        then (let (x', n) = copy_at (x d4) 0 p2 in d4\<lparr>x := x', nx := n\<rparr>)
                        else d4)
              in Inr (d5, nn)))"

definition digest_Size :: "digest \<Rightarrow> int" where
  "digest_Size d = Size"

definition digest_BlockSize :: "digest \<Rightarrow> int" where
  "digest_BlockSize d = BlockSize"

text \<open>The local array \<open>tmp\<close> of \<open>checkSum\<close> after \<open>tmp[0] = 0x80\<close>.\<close>

definition tmp0 :: "byte list" where
  "tmp0 = (replicate 64 0)[0 := 0x80]"

text \<open>The upper bound of the first padding slice, computed in \<open>uint64\<close>.\<close>

definition pad_count :: "uint64 \<Rightarrow> uint64" where
  "pad_count l = (if l mod 64 < 56 then 56 - l mod 64 else 64 + 56 - l mod 64)"

text \<open>The eight calls of \<open>putUint32\<close> on the zeroed array \<open>digest\<close>.\<close>

definition serialize :: "state8 \<Rightarrow> error + byte list" where
  "serialize s =
     (case s of (h0, h1, h2, h3, h4, h5, h6, h7) \<Rightarrow>
        and_then (putUint32 (replicate (nat Size) 0) 0 h0) (\<lambda>a0.
        and_then (putUint32 a0 4 h1) (\<lambda>a1.
        and_then (putUint32 a1 8 h2) (\<lambda>a2.
        and_then (putUint32 a2 12 h3) (\<lambda>a3.
        and_then (putUint32 a3 16 h4) (\<lambda>a4.
        and_then (putUint32 a4 20 h5) (\<lambda>a5.
        and_then (putUint32 a5 24 h6) (\<lambda>a6.
        putUint32 a6 28 h7))))))))"

text \<open>
  \<open>checkSum\<close> works on its receiver: the result is the receiver after the two padding
  writes, and the 32-byte array.
\<close>

definition checkSum :: "transform \<Rightarrow> digest \<Rightarrow> error + (digest \<times> byte list)" where
  "checkSum tf d =
     (let l = len d in
      and_then (slice_to tmp0 (unat (pad_count l))) (\<lambda>s1.
      and_then (Write tf d s1) (\<lambda>(d1, n1).
      let l8 = push_bit 3 l in
      and_then (putUint64 tmp0 l8) (\<lambda>tmp1.
      and_then (slice_to tmp1 8) (\<lambda>s2.
      and_then (Write tf d1 s2) (\<lambda>(d2, n2).
      if nx d2 \<noteq> 0 then Inl (Panic ''d.nx != 0'')
      else and_then (serialize (h d2)) (\<lambda>out. Inr (d2, out))))))))"

text \<open>
  The method \<open>Sum\<close>: \<open>d := *d0\<close> copies the struct, \<open>checkSum\<close> runs on the copy. The
  result is the receiver after the call and the returned slice.
\<close>

definition digest_Sum :: "transform \<Rightarrow> digest \<Rightarrow> byte list \<Rightarrow> error + (digest \<times> byte list)" where
  "digest_Sum tf d0 b =
     (let d = d0 in
      and_then (checkSum tf d) (\<lambda>(d', hash). Inr (d0, b @ hash)))"

text \<open>The package-level function \<open>Sum\<close>.\<close>

definition Sum :: "transform \<Rightarrow> byte list \<Rightarrow> error + byte list" where
  "Sum tf data =
     (let d = Reset zero_digest in
      and_then (Write tf d data) (\<lambda>(d1, n).
      and_then (checkSum tf d1) (\<lambda>(d2, out). Inr out)))"

subsection \<open>Running a sequence of calls\<close>

text \<open>\<open>Write(c1); ...; Write(cn)\<close> on one digest, in order.\<close>

fun writes :: "transform \<Rightarrow> digest \<Rightarrow> byte list list \<Rightarrow> error + digest" where
  "writes tf d [] = Inr d"
| "writes tf d (c # cs) = and_then (Write tf d c) (\<lambda>(d', n). writes tf d' cs)"

text \<open>\<open>Write(c1); ...; Write(cn)\<close> followed by the method call \<open>Sum(b)\<close>: the returned slice.\<close>

definition stream_sum :: "transform \<Rightarrow> digest \<Rightarrow> byte list list \<Rightarrow> byte list \<Rightarrow> error + byte list" where
  "stream_sum tf d cs b =
     and_then (writes tf d cs) (\<lambda>d'. and_then (digest_Sum tf d' b) (\<lambda>(d'', out). Inr out))"

text \<open>
  The digest states a program can build: the zero value, and whatever the exported
  methods make of a state already built (the struct and its fields are unexported).
\<close>

inductive reachable :: "transform \<Rightarrow> digest \<Rightarrow> bool" for tf :: transform where
  reach_zero: "reachable tf zero_digest"
| reach_Reset: "reachable tf d \<Longrightarrow> reachable tf (Reset d)"
| reach_Write: "reachable tf d \<Longrightarrow> Write tf d p = Inr (d', n) \<Longrightarrow> reachable tf d'"
| reach_Sum: "reachable tf d \<Longrightarrow> digest_Sum tf d b = Inr (d', out) \<Longrightarrow> reachable tf d'"

code_pred reachable .

subsection \<open>What a digest state stands for\<close>

text \<open>The bytes waiting in the buffer: the first \<open>nx\<close> bytes of \<open>x\<close>.\<close>

definition buffered :: "digest \<Rightarrow> byte list" where
  "buffered d = take (nat (nx d)) (x d)"

text \<open>
  A digest state as the data model has it: the 64 bytes of the array type, and a
  fill-count within \<open>0..63\<close>.
\<close>

definition digest_wf :: "digest \<Rightarrow> bool" where
  "digest_wf d \<longleftrightarrow> length (x d) = 64 \<and> 0 \<le> nx d \<and> nx d < 64"

text \<open>
  The invariant of the reachable states: the array has its 64 bytes, the fill-count is
  within \<open>0..63\<close>, and it is the length counter modulo 64.
\<close>

definition digest_inv :: "digest \<Rightarrow> bool" where
  "digest_inv d \<longleftrightarrow>
     length (x d) = 64 \<and> 0 \<le> nx d \<and> nx d < 64 \<and> nx d = int (unat (len d) mod 64)"

text \<open>The part of a byte sequence after its last complete 64-byte block.\<close>

definition tail64 :: "byte list \<Rightarrow> byte list" where
  "tail64 p = drop (64 * (length p div 64)) p"

subsection \<open>The padding in the words of the specification\<close>

text \<open>Big-endian encoding of a number in \<open>k\<close> bytes (the number taken modulo \<open>256 ^ k\<close>).\<close>

definition be_bytes :: "nat \<Rightarrow> nat \<Rightarrow> byte list" where
  "be_bytes k v = map (\<lambda>i. of_nat (v div 256 ^ (k - 1 - i) mod 256)) [0..<k]"

text \<open>
  The number of zero bytes after the \<open>0x80\<close> marker as the specification states it, for
  a message of \<open>l\<close> bytes.
\<close>

definition stated_zero_count :: "nat \<Rightarrow> nat" where
  "stated_zero_count l = (if l mod 64 < 56 then 56 - l mod 64 else 64 + 56 - l mod 64)"

text \<open>
  The number of zero bytes that brings the length, marker included, to 56 modulo 64.
\<close>

definition zero_count :: "nat \<Rightarrow> nat" where
  "zero_count l = (if l mod 64 < 56 then 55 - l mod 64 else 64 + 55 - l mod 64)"

text \<open>
  Merkle-Damgard padding for a length counter \<open>l\<close>: the marker, the zero bytes, the
  bit-length in eight big-endian bytes.
\<close>

definition padding :: "uint64 \<Rightarrow> byte list" where
  "padding l = 0x80 # replicate (zero_count (unat l)) 0 @ be_bytes 8 (8 * unat l mod 2 ^ 64)"

subsection \<open>A transform for concrete runs\<close>

text \<open>
  Any function of the transform's type instantiates the parameter; this one (not the SM3
  compression function) rotates the state words and mixes in three bytes of the block.
\<close>

fun sample_transform :: transform where
  "sample_transform (a, b, c, d, e, f, g, i) blk =
     (b, c, d, e, f, g, i XOR ucast (blk ! 5), a + 1 + ucast (blk ! 63) + 3 * ucast (blk ! 0))"

section \<open>Properties\<close>

subsection \<open>Arithmetic and the block driver\<close>

lemma and_not_63: "(k::int) AND NOT 63 = 64 * (k div 64)"
proof -
  have "k AND NOT (mask 6) = push_bit 6 (drop_bit 6 k)"
    by (rule bit_eqI) (auto simp add: bit_simps)
  then show ?thesis
    by (simp add: push_bit_eq_mult drop_bit_eq_div mask_eq_exp_minus_1)
qed

lemma blocks_short: "length p < 64 \<Longrightarrow> blocks tf s p = s"
  by (simp add: blocks.simps)

lemma blocks_step: "64 \<le> length p \<Longrightarrow> blocks tf s p = blocks tf (tf s (take 64 p)) (drop 64 p)"
  by (subst blocks.simps) simp

lemma blocks_append:
  "length a mod 64 = 0 \<Longrightarrow> blocks tf s (a @ b) = blocks tf (blocks tf s a) b"
proof (induction tf s a rule: blocks.induct)
  case (1 tf s p)
  show ?case
  proof (cases "length p < 64")
    case True
    with 1(2) have "p = []" by simp
    then show ?thesis by (simp add: blocks_short)
  next
    case False
    then have ge: "64 \<le> length p" by simp
    have m: "length (drop 64 p) mod 64 = 0"
      using 1(2) ge by simp presburger
    have "blocks tf s (p @ b) = blocks tf (tf s (take 64 p)) (drop 64 p @ b)"
      using ge by (simp add: blocks_step)
    also have "\<dots> = blocks tf (blocks tf (tf s (take 64 p)) (drop 64 p)) b"
      using 1(1) [OF False m] .
    also have "\<dots> = blocks tf (blocks tf s p) b"
      using ge by (simp add: blocks_step [of p])
    finally show ?thesis .
  qed
qed

lemma length_tail64: "length (tail64 p) = length p mod 64"
  by (simp add: tail64_def minus_mult_div_eq_mod)

lemma blocks_tail64: "blocks tf (blocks tf s a) (tail64 a @ b) = blocks tf s (a @ b)"
proof -
  let ?n = "64 * (length a div 64)"
  have "?n \<le> length a" by simp
  then have len: "length (take ?n a) mod 64 = 0" by (simp add: min_absorb2)
  have "blocks tf s (a @ b) = blocks tf s (take ?n a @ (drop ?n a @ b))"
    by (simp only: append_assoc [symmetric] append_take_drop_id)
  also have "\<dots> = blocks tf (blocks tf s (take ?n a)) (drop ?n a @ b)"
    by (rule blocks_append [OF len])
  also have "blocks tf s (take ?n a) = blocks tf (blocks tf s (take ?n a)) (drop ?n a)"
    by (rule blocks_short [symmetric]) (simp add: minus_mult_div_eq_mod)
  also have "\<dots> = blocks tf s (take ?n a @ drop ?n a)"
    by (rule blocks_append [OF len, symmetric])
  finally show ?thesis by (simp add: tail64_def)
qed

lemma div64_split: "(a + b) div 64 = a div 64 + (a mod 64 + b) div (64::nat)"
proof -
  have "(a + b) div 64 = ((a mod 64 + b) + 64 * (a div 64)) div 64"
    by (simp add: algebra_simps)
  also have "\<dots> = a div 64 + (a mod 64 + b) div 64"
    by (rule div_mult_self2) simp
  finally show ?thesis .
qed

lemma tail64_append: "tail64 (tail64 a @ b) = tail64 (a @ b)"
proof -
  let ?n = "64 * (length a div 64)"
  have "tail64 (a @ b) = drop (64 * ((length a mod 64 + length b) div 64) + ?n) (a @ b)"
    by (simp add: tail64_def div64_split [of "length a"] algebra_simps)
  also have "\<dots> = drop (64 * ((length a mod 64 + length b) div 64)) (drop ?n (a @ b))"
    by (simp only: drop_drop)
  also have "drop ?n (a @ b) = tail64 a @ b"
    by (simp add: tail64_def)
  finally show ?thesis
    by (simp add: tail64_def [of "tail64 a @ b"] length_tail64)
qed

lemma tail64_short: "length p < 64 \<Longrightarrow> tail64 p = p"
  by (simp add: tail64_def)

lemma unat_add_mod64: "unat ((l::uint64) + of_nat n) mod 64 = (unat l + n) mod 64"
proof -
  have "unat (l + of_nat n) = (unat l + n) mod 2 ^ 64"
    by (simp add: unat_word_ariths unat_of_nat mod_simps)
  moreover have "(64::nat) dvd 2 ^ 64" by simp
  ultimately show ?thesis by (simp only: mod_mod_cancel)
qed

lemma unat_len_step: "unat ((l::uint64) + of_nat n) = (unat l + n) mod 2 ^ 64"
  by (simp add: unat_word_ariths unat_of_nat mod_simps)

lemma inv_len_step:
  assumes "digest_inv d"
  shows "unat (len d + of_nat n) mod 64 = (nat (nx d) + n) mod 64"
proof -
  have "nat (nx d) = unat (len d) mod 64"
    using assms by (simp add: digest_inv_def)
  then show ?thesis
    by (simp add: unat_add_mod64 mod_add_left_eq)
qed

lemma nat_and_neg64: "nat (int n AND - 64) = 64 * (n div 64)"
proof -
  have "int n AND - 64 = int n AND NOT 63" by simp
  also have "\<dots> = 64 * (int n div 64)" by (rule and_not_63)
  also have "\<dots> = int (64 * (n div 64))" by (simp add: zdiv_int)
  finally show ?thesis by (simp only: nat_int)
qed

lemma blocks_ignores_tail: "blocks tf s (take (64 * (length p div 64)) p) = blocks tf s p"
proof -
  let ?n = "64 * (length p div 64)"
  have "?n \<le> length p" by simp
  then have len: "length (take ?n p) mod 64 = 0" by (simp add: min_absorb2)
  have "blocks tf s p = blocks tf s (take ?n p @ drop ?n p)" by simp
  also have "\<dots> = blocks tf (blocks tf s (take ?n p)) (drop ?n p)"
    by (rule blocks_append [OF len])
  also have "\<dots> = blocks tf s (take ?n p)"
    by (rule blocks_short) (simp add: minus_mult_div_eq_mod)
  finally show ?thesis by simp
qed

lemma Write_wf_empty_buffer:
  assumes wf: "digest_wf d" and z: "nx d = 0"
  shows "\<exists>d'. Write tf d p = Inr (d', int (length p)) \<and> digest_wf d' \<and>
           nat (nx d') = (nat (nx d) + length p) mod 64 \<and>
           h d' = blocks tf (h d) (buffered d @ p) \<and>
           buffered d' = tail64 (buffered d @ p) \<and>
           len d' = len d + of_nat (length p)"
proof (cases "64 \<le> length p")
  case False
  show ?thesis
    using wf z False
    by (simp add: Write_def Let_def and_then_def chunk_def BlockSize_def copy_at_def block_def
        buffered_def digest_wf_def tail64_short blocks_short)
next
  case True
  have m: "length p \<le> 64 * (length p div 64) \<Longrightarrow> length p mod 64 = 0"
    by (metis minus_mult_div_eq_mod diff_is_0_eq)
  show ?thesis
    using wf z True m
    by (simp add: Write_def Let_def and_then_def chunk_def BlockSize_def copy_at_def block_def
        buffered_def digest_wf_def nat_and_neg64 minus_mult_div_eq_mod blocks_ignores_tail
        tail64_def)
qed

lemma Write_wf_top_up_short:
  assumes wf: "digest_wf d" and pos: "0 < nx d" and short: "nat (nx d) + length p < 64"
  shows "\<exists>d'. Write tf d p = Inr (d', int (length p)) \<and> digest_wf d' \<and>
           nat (nx d') = (nat (nx d) + length p) mod 64 \<and>
           h d' = blocks tf (h d) (buffered d @ p) \<and>
           buffered d' = tail64 (buffered d @ p) \<and>
           len d' = len d + of_nat (length p)"
proof -
  have "nx d + int (length p) < 64"
    using pos short by linarith
  with wf pos short show ?thesis
    by (simp add: Write_def Let_def and_then_def chunk_def BlockSize_def copy_at_def block_def
        buffered_def digest_wf_def tail64_short blocks_short min_absorb2 nat_add_distrib)
qed

lemma Write_wf_top_up_full:
  assumes wf: "digest_wf d" and pos: "0 < nx d" and long: "64 \<le> nat (nx d) + length p"
  shows "\<exists>d'. Write tf d p = Inr (d', int (length p)) \<and> digest_wf d' \<and>
           nat (nx d') = (nat (nx d) + length p) mod 64 \<and>
           h d' = blocks tf (h d) (buffered d @ p) \<and>
           buffered d' = tail64 (buffered d @ p) \<and>
           len d' = len d + of_nat (length p)"
proof -
  define n where "n = 64 - nat (nx d)"
  define X where "X = buffered d @ take n p"
  define q where "q = drop n p"
  define e where "e = \<lparr>h = blocks tf (h d) X, x = X, nx = 0, len = len d + of_nat n\<rparr>"
  have lx: "length (x d) = 64" and nx64: "nx d < 64"
    using wf by (simp_all add: digest_wf_def)
  have n_le: "n \<le> length p" and nn: "nat (nx d) + n = 64"
    using long nx64 pos by (simp_all add: n_def)
  have lX: "length X = 64"
    using lx nn n_le pos by (simp add: X_def buffered_def min_absorb2)
  have split: "buffered d @ p = X @ q"
    by (simp add: X_def q_def)
  have wf_e: "digest_wf e"
    using lX by (simp add: e_def digest_wf_def)
  have len_e: "len e + of_nat (length q) = len d + of_nat (length p)"
    using n_le by (simp add: e_def q_def flip: of_nat_add)
  have eq: "Write tf d p =
      (case Write tf e q of Inl err \<Rightarrow> Inl err | Inr (d', k) \<Rightarrow> Inr (d', int (length p)))"
  proof -
    have mn: "min (64 - nat (nx d)) (length p) = n"
      using n_le by (simp add: n_def)
    have nxn: "nx d + int n = 64"
      using nn pos by linarith
    have dr: "drop (nat (nx d) + n) (x d) = []"
      using lx nn by simp
    have ln: "len d + of_nat n + of_nat (length p - n) = len d + of_nat (length p)"
      using len_e by (simp add: e_def q_def)
    have X': "take (nat (nx d)) (x d) @ take n p = X"
      by (simp add: X_def buffered_def)
    show ?thesis
      using lx nx64 pos
      by (simp add: Write_def Let_def and_then_def chunk_def BlockSize_def copy_at_def block_def
          e_def q_def mn nxn dr ln X')
  qed
  obtain d' where w: "Write tf e q = Inr (d', int (length q))" and i: "digest_wf d'"
      and nd: "nat (nx d') = (nat (nx e) + length q) mod 64"
      and hd: "h d' = blocks tf (h e) (buffered e @ q)"
      and bd: "buffered d' = tail64 (buffered e @ q)"
      and ld: "len d' = len e + of_nat (length q)"
    using Write_wf_empty_buffer [OF wf_e, of tf q] by (auto simp add: e_def)
  have be: "buffered e = []" by (simp add: e_def buffered_def)
  have "h d' = blocks tf (h d) (X @ q)"
    using hd be lX by (simp add: e_def blocks_append)
  moreover have "tail64 q = tail64 (X @ q)"
    using lX tail64_append [of X q] by (simp add: tail64_def [of X])
  moreover have "nat (nx d') = (nat (nx d) + length p) mod 64"
  proof -
    have "nat (nx d) + length p = 64 + length q"
      using nn n_le by (simp add: q_def)
    then show ?thesis
      using nd by (simp add: e_def)
  qed
  ultimately show ?thesis
    using eq w i bd ld len_e be by (simp add: split)
qed

subsection \<open>The effect of writes on what a state stands for\<close>

lemma Write_wf:
  assumes wf: "digest_wf d"
  shows "\<exists>d'. Write tf d p = Inr (d', int (length p)) \<and> digest_wf d' \<and>
           nat (nx d') = (nat (nx d) + length p) mod 64 \<and>
           h d' = blocks tf (h d) (buffered d @ p) \<and>
           buffered d' = tail64 (buffered d @ p) \<and>
           len d' = len d + of_nat (length p)"
proof -
  have "0 \<le> nx d" using wf by (simp add: digest_wf_def)
  then consider "nx d = 0" | "0 < nx d" "nat (nx d) + length p < 64"
    | "0 < nx d" "64 \<le> nat (nx d) + length p"
    by linarith
  then show ?thesis
  proof cases
    case 1
    then show ?thesis by (rule Write_wf_empty_buffer [OF wf])
  next
    case 2
    then show ?thesis by (rule Write_wf_top_up_short [OF wf])
  next
    case 3
    then show ?thesis by (rule Write_wf_top_up_full [OF wf])
  qed
qed

lemma inv_wf: "digest_inv d \<Longrightarrow> digest_wf d"
  by (simp add: digest_inv_def digest_wf_def)

lemma Write_spec:
  assumes inv: "digest_inv d"
  shows "\<exists>d'. Write tf d p = Inr (d', int (length p)) \<and> digest_inv d' \<and>
           h d' = blocks tf (h d) (buffered d @ p) \<and>
           buffered d' = tail64 (buffered d @ p) \<and>
           len d' = len d + of_nat (length p)"
proof -
  obtain d' where w: "Write tf d p = Inr (d', int (length p))" and wf: "digest_wf d'"
      and n: "nat (nx d') = (nat (nx d) + length p) mod 64"
      and rest: "h d' = blocks tf (h d) (buffered d @ p)"
        "buffered d' = tail64 (buffered d @ p)" "len d' = len d + of_nat (length p)"
    using Write_wf [OF inv_wf [OF inv], of tf p] by blast
  have k: "nat (nx d') = unat (len d') mod 64"
    by (simp only: n rest(3) inv_len_step [OF inv])
  have "nx d' = int (nat (nx d'))"
    using wf by (simp add: digest_wf_def)
  then have "nx d' = int (unat (len d') mod 64)"
    by (simp only: k)
  then have "digest_inv d'"
    using wf by (simp add: digest_inv_def digest_wf_def)
  with w rest show ?thesis by simp
qed

lemma zero_digest_inv: "digest_inv zero_digest"
  by (simp add: digest_inv_def zero_digest_def)

lemma Reset_inv: "length (x d) = 64 \<Longrightarrow> digest_inv (Reset d)"
  by (simp add: digest_inv_def Reset_def)

lemma serialize_total: "\<exists>out. serialize s = Inr out \<and> length out = 32"
  by (simp add: serialize_def putUint32_def and_then_def Size_def split: prod.split)

lemma writes_spec:
  assumes "digest_inv d"
  shows "\<exists>d'. writes tf d cs = Inr d' \<and> digest_inv d' \<and>
           h d' = blocks tf (h d) (buffered d @ concat cs) \<and>
           buffered d' = tail64 (buffered d @ concat cs) \<and>
           len d' = len d + of_nat (length (concat cs))"
  using assms
proof (induction cs arbitrary: d)
  case Nil
  then have "length (buffered d) < 64"
    by (simp add: buffered_def digest_inv_def)
  with Nil show ?case
    by (simp add: blocks_short tail64_short)
next
  case (Cons c cs)
  obtain d1 where w: "Write tf d c = Inr (d1, int (length c))" and i: "digest_inv d1"
      and hd: "h d1 = blocks tf (h d) (buffered d @ c)"
      and bd: "buffered d1 = tail64 (buffered d @ c)"
      and ld: "len d1 = len d + of_nat (length c)"
    using Write_spec [OF Cons.prems, of tf c] by blast
  obtain d2 where w2: "writes tf d1 cs = Inr d2" and i2: "digest_inv d2"
      and hd2: "h d2 = blocks tf (h d1) (buffered d1 @ concat cs)"
      and bd2: "buffered d2 = tail64 (buffered d1 @ concat cs)"
      and ld2: "len d2 = len d1 + of_nat (length (concat cs))"
    using Cons.IH [OF i] by blast
  have "h d2 = blocks tf (h d) (buffered d @ concat (c # cs))"
    using hd2 hd bd blocks_tail64 [of tf "h d" "buffered d @ c" "concat cs"] by simp
  moreover have "buffered d2 = tail64 (buffered d @ concat (c # cs))"
    using bd2 bd tail64_append [of "buffered d @ c" "concat cs"] by simp
  moreover have "len d2 = len d + of_nat (length (concat (c # cs)))"
    using ld2 ld by simp
  ultimately show ?case
    using w w2 i2 by (simp add: and_then_def)
qed

subsection \<open>The padding written by finalization\<close>

lemma pad_count_unat: "unat (pad_count l) = 1 + zero_count (unat l)"
proof -
  have r: "unat (l mod 64) = unat l mod 64"
    by (simp add: unat_mod)
  have r64: "unat l mod 64 < 64" by simp
  show ?thesis
  proof (cases "l mod 64 < 56")
    case True
    then have lt: "unat l mod 64 < 56"
      by (simp add: word_less_nat_alt r)
    have "unat (56 - l mod 64) = 56 - unat (l mod 64)"
      using True by (simp add: unat_sub word_le_nat_alt word_less_nat_alt)
    then show ?thesis
      using True lt by (simp add: pad_count_def zero_count_def r)
  next
    case False
    then have ge: "\<not> unat l mod 64 < 56"
      by (simp add: word_less_nat_alt r)
    have "l mod 64 \<le> 120"
      using r64 by (simp add: word_le_nat_alt r)
    then have "unat (120 - l mod 64) = 120 - unat (l mod 64)"
      by (simp add: unat_sub)
    then show ?thesis
      using False ge r64 by (simp add: pad_count_def zero_count_def r)
  qed
qed

lemma zero_count_le: "zero_count n \<le> 63"
proof -
  have "n mod 64 < 64" by simp
  then show ?thesis
    unfolding zero_count_def by (cases "n mod 64 < 56") simp_all
qed

lemma tmp0_eq: "tmp0 = 0x80 # replicate 63 0"
  by code_simp

lemma pad_slice: "slice_to tmp0 (unat (pad_count l)) = Inr (0x80 # replicate (zero_count (unat l)) 0)"
  using zero_count_le [of "unat l"]
  by (simp add: slice_to_def pad_count_unat tmp0_eq min_absorb1)

lemma unat_push_bit3: "unat (push_bit 3 (l::uint64)) = 8 * unat l mod 2 ^ 64"
  by (simp add: push_bit_eq_mult unat_word_ariths mult.commute)

lemma unat_drop_bit_div: "unat (drop_bit n (s::uint64)) = unat s div 2 ^ n"
  by (subst unat_drop_bit_eq) (simp add: drop_bit_eq_div)

lemma byte_of_word: "(ucast (s::uint64) :: byte) = of_nat (unat s mod 256)"
  by (simp add: word_unat_eq_iff unat_of_nat unsigned_ucast_eq take_bit_eq_mod)

lemma tmp0_list:
  "tmp0 = [0x80, 0, 0, 0, 0, 0, 0, 0, 0, 0, 0, 0, 0, 0, 0, 0,
           0, 0, 0, 0, 0, 0, 0, 0, 0, 0, 0, 0, 0, 0, 0, 0,
           0, 0, 0, 0, 0, 0, 0, 0, 0, 0, 0, 0, 0, 0, 0, 0,
           0, 0, 0, 0, 0, 0, 0, 0, 0, 0, 0, 0, 0, 0, 0, 0]"
  by code_simp

lemma upt_8: "[0..<8] = [0, 1, 2, 3, 4, 5, 6, 7]"
  by code_simp

lemma len_slice:
  "\<exists>t. putUint64 tmp0 s = Inr t \<and> slice_to t 8 = Inr (be_bytes 8 (unat s))"
  by (simp add: putUint64_def slice_to_def tmp0_list be_bytes_def upt_8
      byte_of_word unat_drop_bit_div)

lemma length_be_bytes: "length (be_bytes k v) = k"
  by (simp add: be_bytes_def)

lemma pad_fill: "(n mod 64 + (1 + zero_count n)) mod 64 = 56"
proof -
  have "n mod 64 < 64" by simp
  then show ?thesis
    unfolding zero_count_def by (cases "n mod 64 < 56") simp_all
qed

lemma and_then_Inr: "and_then (Inr v) f = f v"
  by (simp add: and_then_def)

lemma checkSum_spec:
  assumes inv: "digest_inv d"
  shows "\<exists>d1 d2 out.
     Write tf d (0x80 # replicate (zero_count (unat (len d))) 0)
       = Inr (d1, int (1 + zero_count (unat (len d)))) \<and>
     Write tf d1 (be_bytes 8 (8 * unat (len d) mod 2 ^ 64)) = Inr (d2, 8) \<and>
     checkSum tf d = Inr (d2, out) \<and> nx d2 = 0 \<and> digest_inv d2 \<and>
     h d2 = blocks tf (h d) (buffered d @ padding (len d)) \<and>
     serialize (h d2) = Inr out \<and> length out = 32"
proof -
  define z where "z = zero_count (unat (len d))"
  define P1 :: "byte list" where "P1 = 0x80 # replicate z 0"
  define P2 where "P2 = be_bytes 8 (8 * unat (len d) mod 2 ^ 64)"
  have lP1: "length P1 = 1 + z" and lP2: "length P2 = 8"
    by (simp_all add: P1_def P2_def length_be_bytes)
  have r: "nat (nx d) = unat (len d) mod 64"
    using inv by (simp add: digest_inv_def)
  obtain d1 where w1: "Write tf d P1 = Inr (d1, int (length P1))" and i1: "digest_inv d1"
      and h1: "h d1 = blocks tf (h d) (buffered d @ P1)"
      and b1: "buffered d1 = tail64 (buffered d @ P1)"
      and l1: "len d1 = len d + of_nat (length P1)"
    using Write_spec [OF inv, of tf P1] by blast
  have "nat (nx d1) = unat (len d1) mod 64"
    using i1 by (simp add: digest_inv_def)
  also have "\<dots> = (nat (nx d) + length P1) mod 64"
    by (simp only: l1 inv_len_step [OF inv])
  also have "\<dots> = 56"
    using pad_fill [of "unat (len d)"] by (simp add: r lP1 z_def)
  finally have n1: "nat (nx d1) = 56" .
  obtain d2 where w2: "Write tf d1 P2 = Inr (d2, int (length P2))" and i2: "digest_inv d2"
      and h2: "h d2 = blocks tf (h d1) (buffered d1 @ P2)"
      and l2: "len d2 = len d1 + of_nat (length P2)"
    using Write_spec [OF i1, of tf P2] by blast
  have "nat (nx d2) = unat (len d2) mod 64"
    using i2 by (simp add: digest_inv_def)
  also have "\<dots> = (nat (nx d1) + length P2) mod 64"
    by (simp only: l2 inv_len_step [OF i1])
  also have "\<dots> = 0"
    by (simp add: n1 lP2)
  finally have "nat (nx d2) = 0" .
  then have n2: "nx d2 = 0"
    using i2 by (simp add: digest_inv_def)
  obtain out where s: "serialize (h d2) = Inr out" and lo: "length out = 32"
    using serialize_total by blast
  obtain t where t1: "putUint64 tmp0 (push_bit 3 (len d)) = Inr t"
      and t2: "slice_to t 8 = Inr P2"
    using len_slice [of "push_bit 3 (len d)"] by (auto simp add: P2_def unat_push_bit3)
  have c: "checkSum tf d = Inr (d2, out)"
    by (simp add: checkSum_def Let_def pad_slice and_then_Inr w1 [unfolded P1_def z_def]
        t1 t2 w2 n2 s)
  have "h d2 = blocks tf (h d) (buffered d @ P1 @ P2)"
    using h2 h1 b1 blocks_tail64 [of tf "h d" "buffered d @ P1" P2] by simp
  then have hh: "h d2 = blocks tf (h d) (buffered d @ padding (len d))"
    by (simp add: padding_def P1_def P2_def z_def)
  show ?thesis
    using w1 w2 c n2 i2 hh s lo
    by (auto simp add: P1_def P2_def z_def length_be_bytes)
qed

subsection \<open>Reachable states, finalization and the digest value\<close>

lemma digest_Sum_receiver: "digest_Sum tf d b = Inr (d', out) \<Longrightarrow> d' = d"
  by (auto simp add: digest_Sum_def Let_def and_then_def split: sum.splits)

lemma reachable_inv: "reachable tf d \<Longrightarrow> digest_inv d"
proof (induction rule: reachable.induct)
  case reach_zero
  show ?case by (rule zero_digest_inv)
next
  case (reach_Reset d)
  then have "length (x d) = 64" by (simp add: digest_inv_def)
  then show ?case by (rule Reset_inv)
next
  case (reach_Write d p d' n)
  then show ?case using Write_spec [of d tf p] by auto
next
  case (reach_Sum d b d' out)
  with digest_Sum_receiver [of tf d b d' out] show ?case by simp
qed

lemma reachable_New: "reachable tf New"
  unfolding New_def by (intro reachable.intros)

lemma New_inv: "digest_inv New"
  by (simp add: New_def Reset_inv zero_digest_def)

lemma New_fields: "h New = iv" "buffered New = []" "len New = 0" "nx New = 0"
  by (simp_all add: New_def Reset_def buffered_def)

lemma Reset_fields: "h (Reset d) = iv" "buffered (Reset d) = []" "len (Reset d) = 0"
  "nx (Reset d) = 0" "x (Reset d) = x d"
  by (simp_all add: Reset_def buffered_def)

lemma digest_Sum_spec:
  assumes "digest_inv d"
  shows "\<exists>out. digest_Sum tf d b = Inr (d, b @ out) \<and> length out = 32 \<and>
           serialize (blocks tf (h d) (buffered d @ padding (len d))) = Inr out"
proof -
  obtain d2 out where "checkSum tf d = Inr (d2, out)" "length out = 32"
      "h d2 = blocks tf (h d) (buffered d @ padding (len d))" "serialize (h d2) = Inr out"
    using checkSum_spec [OF assms, of tf] by blast
  then show ?thesis
    by (simp add: digest_Sum_def and_then_def)
qed

lemma stream_sum_spec:
  assumes "digest_inv d"
  shows "\<exists>d' out. writes tf d cs = Inr d' \<and> digest_inv d' \<and>
           digest_Sum tf d' b = Inr (d', b @ out) \<and>
           stream_sum tf d cs b = Inr (b @ out) \<and> length out = 32 \<and>
           serialize (blocks tf (h d)
             (buffered d @ concat cs @ padding (len d + of_nat (length (concat cs))))) = Inr out"
proof -
  obtain d' where w: "writes tf d cs = Inr d'" and i: "digest_inv d'"
      and hd: "h d' = blocks tf (h d) (buffered d @ concat cs)"
      and bd: "buffered d' = tail64 (buffered d @ concat cs)"
      and ld: "len d' = len d + of_nat (length (concat cs))"
    using writes_spec [OF assms, of tf cs] by blast
  obtain out where s: "digest_Sum tf d' b = Inr (d', b @ out)" and lo: "length out = 32"
      and ser: "serialize (blocks tf (h d') (buffered d' @ padding (len d'))) = Inr out"
    using digest_Sum_spec [OF i, of tf b] by blast
  have "blocks tf (h d') (buffered d' @ padding (len d'))
      = blocks tf (h d) ((buffered d @ concat cs) @ padding (len d'))"
    unfolding hd bd by (rule blocks_tail64)
  with ser ld
  have "serialize (blocks tf (h d)
      (buffered d @ concat cs @ padding (len d + of_nat (length (concat cs))))) = Inr out"
    by simp
  with w i s lo show ?thesis
    by (simp add: stream_sum_def and_then_def)
qed

lemma Sum_spec:
  "\<exists>out. Sum tf data = Inr out \<and> length out = 32 \<and>
     serialize (blocks tf iv (data @ padding (of_nat (length data)))) = Inr out"
proof -
  obtain d1 where w: "Write tf New data = Inr (d1, int (length data))" and i: "digest_inv d1"
      and hd: "h d1 = blocks tf (h New) (buffered New @ data)"
      and bd: "buffered d1 = tail64 (buffered New @ data)"
      and ld: "len d1 = len New + of_nat (length data)"
    using Write_spec [OF New_inv, of tf data] by blast
  obtain d2 out where c: "checkSum tf d1 = Inr (d2, out)" and lo: "length out = 32"
      and h2: "h d2 = blocks tf (h d1) (buffered d1 @ padding (len d1))"
      and ser: "serialize (h d2) = Inr out"
    using checkSum_spec [OF i, of tf] by blast
  have "h d2 = blocks tf iv (data @ padding (of_nat (length data)))"
    using h2 blocks_tail64 [of tf iv data "padding (of_nat (length data))"]
    by (simp add: hd bd ld New_fields)
  with ser have "serialize (blocks tf iv (data @ padding (of_nat (length data)))) = Inr out"
    by simp
  moreover have "Sum tf data = Inr out"
    using w c by (simp add: Sum_def and_then_def New_def)
  ultimately show ?thesis using lo by blast
qed

lemma padded_length: "(unat l + length (padding l)) mod 64 = 0"
proof -
  let ?n = "unat l"
  have "length (padding l) = (1 + zero_count ?n) + 8"
    by (simp add: padding_def length_be_bytes)
  then have "(?n + length (padding l)) mod 64 = ((?n + (1 + zero_count ?n)) + 8) mod 64"
    by (simp only: add.assoc)
  also have "\<dots> = ((?n + (1 + zero_count ?n)) mod 64 + 8) mod 64"
    by (simp only: mod_add_left_eq)
  also have "(?n + (1 + zero_count ?n)) mod 64 = (?n mod 64 + (1 + zero_count ?n)) mod 64"
    by (simp only: mod_add_left_eq)
  also have "\<dots> = 56"
    by (rule pad_fill)
  finally show ?thesis by simp
qed

lemma checkSum_length: "checkSum tf d = Inr (d', out) \<Longrightarrow> length out = 32"
proof -
  assume "checkSum tf d = Inr (d', out)"
  then have "serialize (h d') = Inr out"
    by (auto simp add: checkSum_def Let_def and_then_def split: sum.splits if_splits)
  with serialize_total [of "h d'"] show ?thesis by auto
qed

lemma reachable_wf: "reachable tf d \<Longrightarrow> digest_wf d"
  by (rule inv_wf [OF reachable_inv])

section \<open>The claims\<close>

text \<open>
  C1 (chunking invariance). For every sequence of chunks \<open>cs\<close>, empty chunks included,
  a fresh digest accepts \<open>Write(c1); ...; Write(cn)\<close> without a panic, its method
  \<open>Sum(nil)\<close> then returns 32 bytes and leaves the digest as it was, and those bytes
  are exactly what the one-shot \<open>Sum\<close> returns on the concatenation of the chunks.
\<close>

theorem chunking_invariance:
  "\<exists>d out. writes tf New cs = Inr d \<and> digest_Sum tf d [] = Inr (d, out) \<and>
     Sum tf (concat cs) = Inr out \<and> length out = 32"
proof -
  obtain d out where w: "writes tf New cs = Inr d"
      and s: "digest_Sum tf d [] = Inr (d, [] @ out)" and lo: "length out = 32"
      and ser: "serialize (blocks tf (h New)
        (buffered New @ concat cs @ padding (len New + of_nat (length (concat cs))))) = Inr out"
    using stream_sum_spec [OF New_inv, of tf cs "[]"] by blast
  obtain out' where o: "Sum tf (concat cs) = Inr out'"
      and ser': "serialize (blocks tf iv (concat cs @ padding (of_nat (length (concat cs)))))
        = Inr out'"
    using Sum_spec [of tf "concat cs"] by blast
  have "out' = out"
    using ser ser' by (simp add: New_fields)
  with w s lo o show ?thesis by simp
qed

text \<open>
  C2 as stated fails on a fresh digest (\<open>L = 0\<close>): the first slice that \<open>checkSum\<close>
  writes is the marker followed by 55 zero bytes, since the slice \<open>tmp[0 : 56 - len%64]\<close>
  includes the marker; the stated 56 zero bytes would give a padded length of 65 bytes.
\<close>

theorem padding_zero_count_counterexample:
  "slice_to tmp0 (unat (pad_count (len New))) = Inr (0x80 # replicate 55 0) \<and>
   slice_to tmp0 (unat (pad_count (len New)))
     \<noteq> Inr (0x80 # replicate (stated_zero_count (unat (len New))) 0) \<and>
   stated_zero_count (unat (len New)) = 56 \<and>
   (unat (len New) + length (0x80 # replicate (stated_zero_count (unat (len New))) (0::byte)) + 8)
     mod 64 = 1"
  by (simp add: New_fields pad_slice zero_count_def stated_zero_count_def)

text \<open>
  C2, amended. For every reachable digest with length counter \<open>L\<close>, \<open>checkSum\<close>
  writes, through \<open>Write\<close>, the marker \<open>0x80\<close> followed by \<open>55 - L mod 64\<close> zero bytes
  if \<open>L mod 64 < 56\<close> and by \<open>64 + 55 - L mod 64\<close> zero bytes otherwise, and then the
  eight big-endian bytes of the bit-length \<open>8 * L\<close> (a \<open>uint64\<close>, so modulo \<open>2 ^ 64\<close>);
  the receiver ends in the state these two writes produce, and the padded length is a
  multiple of 64.
\<close>

theorem checkSum_padding:
  assumes "reachable tf d"
  shows "\<exists>d1 d2 out t.
     slice_to tmp0 (unat (pad_count (len d)))
       = Inr (0x80 # replicate (zero_count (unat (len d))) 0) \<and>
     putUint64 tmp0 (push_bit 3 (len d)) = Inr t \<and>
     slice_to t 8 = Inr (be_bytes 8 (8 * unat (len d) mod 2 ^ 64)) \<and>
     Write tf d (0x80 # replicate (zero_count (unat (len d))) 0)
       = Inr (d1, int (1 + zero_count (unat (len d)))) \<and>
     Write tf d1 (be_bytes 8 (8 * unat (len d) mod 2 ^ 64)) = Inr (d2, 8) \<and>
     checkSum tf d = Inr (d2, out) \<and>
     (unat (len d) + length (padding (len d))) mod 64 = 0"
proof -
  have inv: "digest_inv d" using assms by (rule reachable_inv)
  obtain d1 d2 out where
    w1: "Write tf d (0x80 # replicate (zero_count (unat (len d))) 0)
       = Inr (d1, int (1 + zero_count (unat (len d))))" and
    w2: "Write tf d1 (be_bytes 8 (8 * unat (len d) mod 2 ^ 64)) = Inr (d2, 8)" and
    c: "checkSum tf d = Inr (d2, out)"
    using checkSum_spec [OF inv, of tf] by blast
  obtain t where t1: "putUint64 tmp0 (push_bit 3 (len d)) = Inr t"
    and t2: "slice_to t 8 = Inr (be_bytes 8 (8 * unat (len d) mod 2 ^ 64))"
    using len_slice [of "push_bit 3 (len d)"] by (auto simp add: unat_push_bit3)
  show ?thesis
    apply (rule exI [of _ d1], rule exI [of _ d2], rule exI [of _ out], rule exI [of _ t])
    using w1 w2 c t1 t2 by (simp add: pad_slice padded_length)
qed

text \<open>The amended C2 on a fresh digest: 55 zero bytes, then the encoding of 0.\<close>

theorem checkSum_padding_witness:
  "reachable sample_transform New \<and>
   (\<exists>d1 d2 out.
      Write sample_transform New (0x80 # replicate 55 0) = Inr (d1, 56) \<and>
      Write sample_transform d1 [0, 0, 0, 0, 0, 0, 0, 0] = Inr (d2, 8) \<and>
      checkSum sample_transform New = Inr (d2, out))"
proof -
  have r: "reachable sample_transform New" by (rule reachable_New)
  have z: "zero_count (unat (len New)) = 55"
    by (simp add: New_fields zero_count_def)
  have b: "be_bytes 8 (8 * unat (len New) mod 2 ^ 64) = [0, 0, 0, 0, 0, 0, 0, 0]"
    by (simp add: New_fields be_bytes_def upt_8)
  show ?thesis
    using r checkSum_padding [OF r] unfolding z b by auto
qed

text \<open>
  C3 (post-padding invariant). For every reachable digest, \<open>checkSum\<close> returns: after the
  padding and the length have gone through \<open>Write\<close> the fill-count is 0, so the branch
  \<open>panic("d.nx != 0")\<close> is not taken, and no other panic occurs either.
\<close>

theorem checkSum_buffer_empty:
  assumes "reachable tf d"
  shows "\<exists>d2 out. checkSum tf d = Inr (d2, out) \<and> nx d2 = 0 \<and>
           checkSum tf d \<noteq> Inl (Panic ''d.nx != 0'')"
proof -
  have "digest_inv d" using assms by (rule reachable_inv)
  then obtain d2 out where "checkSum tf d = Inr (d2, out)" "nx d2 = 0"
    using checkSum_spec [of d tf] by blast
  then show ?thesis by simp
qed

theorem checkSum_buffer_empty_witness:
  "reachable sample_transform New \<and>
   (\<exists>d2 out. checkSum sample_transform New = Inr (d2, out) \<and> nx d2 = 0 \<and>
      checkSum sample_transform New \<noteq> Inl (Panic ''d.nx != 0''))"
proof -
  have r: "reachable sample_transform New" by (rule reachable_New)
  show ?thesis
    using r checkSum_buffer_empty [OF r] by simp
qed

text \<open>
  C4 (non-destructive Sum). The method \<open>Sum\<close> works on a copy: whatever the digest
  state, when \<open>Sum(b)\<close> returns the receiver is as it was, in all four fields; and on a
  reachable digest it returns \<open>b\<close> followed by the digest. So on a fresh digest
  \<open>Write(X); Sum(b); Write(Y); Sum(nil)\<close> ends with the bytes that
  \<open>Write(X); Write(Y); Sum(nil)\<close> gives, which are those of the one-shot \<open>Sum\<close> on
  \<open>X @ Y\<close>.
\<close>

theorem Sum_non_destructive:
  "(\<forall>d' res. digest_Sum tf d b = Inr (d', res) \<longrightarrow>
      d' = d \<and> h d' = h d \<and> x d' = x d \<and> nx d' = nx d \<and> len d' = len d) \<and>
   (reachable tf d \<longrightarrow> (\<exists>hash. digest_Sum tf d b = Inr (d, b @ hash))) \<and>
   (\<exists>d1 s1 d2 out.
      Write tf New X = Inr (d1, int (length X)) \<and>
      digest_Sum tf d1 b = Inr (d1, s1) \<and>
      Write tf d1 Y = Inr (d2, int (length Y)) \<and>
      digest_Sum tf d2 [] = Inr (d2, out) \<and>
      stream_sum tf New [X, Y] [] = Inr out \<and>
      Sum tf (X @ Y) = Inr out)"
proof -
  have frame: "d' = d \<and> h d' = h d \<and> x d' = x d \<and> nx d' = nx d \<and> len d' = len d"
    if "digest_Sum tf d b = Inr (d', res)" for d' res
    using digest_Sum_receiver [OF that] by simp
  have total: "\<exists>hash. digest_Sum tf d b = Inr (d, b @ hash)" if "reachable tf d"
    using digest_Sum_spec [OF reachable_inv [OF that], of tf b] by blast
  obtain d1 where w1: "Write tf New X = Inr (d1, int (length X))" and i1: "digest_inv d1"
    using Write_spec [OF New_inv, of tf X] by blast
  obtain s1 where s1: "digest_Sum tf d1 b = Inr (d1, s1)"
    using digest_Sum_spec [OF i1, of tf b] by blast
  obtain d2 where w2: "Write tf d1 Y = Inr (d2, int (length Y))" and i2: "digest_inv d2"
    using Write_spec [OF i1, of tf Y] by blast
  obtain out where s2: "digest_Sum tf d2 [] = Inr (d2, out)"
    using digest_Sum_spec [OF i2, of tf "[]"] by auto
  have st: "stream_sum tf New [X, Y] [] = Inr out"
    using w1 w2 s2 by (simp add: stream_sum_def and_then_def)
  obtain d' out' where "writes tf New [X, Y] = Inr d'"
      and "digest_Sum tf d' [] = Inr (d', out')" and "Sum tf (concat [X, Y]) = Inr out'"
    using stream_sum_spec [OF New_inv, of tf "[X, Y]" "[]"] Sum_spec [of tf "concat [X, Y]"]
    by (auto simp add: New_fields)
  with w1 w2 s2 have "Sum tf (X @ Y) = Inr out"
    by (simp add: and_then_def)
  with w1 s1 w2 s2 st have "\<exists>d1 s1 d2 out.
      Write tf New X = Inr (d1, int (length X)) \<and>
      digest_Sum tf d1 b = Inr (d1, s1) \<and>
      Write tf d1 Y = Inr (d2, int (length Y)) \<and>
      digest_Sum tf d2 [] = Inr (d2, out) \<and>
      stream_sum tf New [X, Y] [] = Inr out \<and>
      Sum tf (X @ Y) = Inr out"
    by blast
  with frame total show ?thesis by blast
qed

theorem Sum_non_destructive_witness:
  "reachable sample_transform New \<and>
   (\<exists>hash. digest_Sum sample_transform New [7] = Inr (New, [7] @ hash)) \<and>
   (\<exists>d1 s1 d2 out.
      Write sample_transform New [1, 2] = Inr (d1, 2) \<and>
      digest_Sum sample_transform d1 [7] = Inr (d1, s1) \<and>
      Write sample_transform d1 [3] = Inr (d2, 1) \<and>
      digest_Sum sample_transform d2 [] = Inr (d2, out) \<and>
      stream_sum sample_transform New [[1, 2], [3]] [] = Inr out \<and>
      Sum sample_transform [1, 2, 3] = Inr out)"
proof -
  have r: "reachable sample_transform New" by (rule reachable_New)
  show ?thesis
    using r Sum_non_destructive [of sample_transform New "[7]" "[1, 2]" "[3]"] by simp
qed

text \<open>
  C5 (Write totality). On every digest state (the 64 bytes of the array type and a
  fill-count within \<open>0..63\<close>, as the data model has it and as every reachable state
  is) and for every byte sequence \<open>p\<close>, the empty one included, \<open>Write(p)\<close> does not
  panic and returns the count \<open>len(p)\<close>, leaving such a state again; its error result
  is never assigned, so it is nil.
\<close>

theorem Write_total:
  assumes "digest_wf d"
  shows "\<exists>d'. Write tf d p = Inr (d', int (length p)) \<and> digest_wf d'"
  using Write_wf [OF assms, of tf p] by blast

theorem Write_total_witness:
  "digest_wf (New\<lparr>nx := 5\<rparr>) \<and>
   (\<exists>d'. Write sample_transform (New\<lparr>nx := 5\<rparr>) [] = Inr (d', 0) \<and> digest_wf d') \<and>
   (\<exists>d'. Write sample_transform (New\<lparr>nx := 5\<rparr>) [1, 2, 3] = Inr (d', 3) \<and> digest_wf d')"
proof -
  have w: "digest_wf (New\<lparr>nx := 5\<rparr>)"
    by (simp add: digest_wf_def New_def Reset_def zero_digest_def)
  show ?thesis
    using w Write_total [OF w, of sample_transform "[]"]
      Write_total [OF w, of sample_transform "[1, 2, 3]"]
    by simp
qed

text \<open>
  C6 (initialization). \<open>Reset\<close> sets the eight state words to the initialization vector
  and the fill-count and the length counter to 0, and leaves the buffer bytes alone;
  \<open>New\<close> is \<open>Reset\<close> on the zero value. A fresh digest and any digest after \<open>Reset\<close>
  (whatever its fields held, the array having its 64 bytes) are usable at once and
  equivalent: whatever chunks are written, the method \<open>Sum\<close> returns, and returns the
  same bytes on both.
\<close>

theorem Reset_New_initial:
  "h (Reset d) = iv \<and> nx (Reset d) = 0 \<and> len (Reset d) = 0 \<and> x (Reset d) = x d \<and>
   iv = (0x7380166f, 0x4914b2b9, 0x172442d7, 0xda8a0600,
         0xa96f30bc, 0x163138aa, 0xe38dee4d, 0xb0fb0e4e) \<and>
   New = Reset zero_digest \<and> h New = iv \<and> nx New = 0 \<and> len New = 0 \<and>
   (length (x d) = 64 \<longrightarrow>
      (\<exists>out. stream_sum tf New cs b = Inr (b @ out) \<and>
             stream_sum tf (Reset d) cs b = Inr (b @ out)))"
proof -
  have "\<exists>out. stream_sum tf New cs b = Inr (b @ out) \<and>
      stream_sum tf (Reset d) cs b = Inr (b @ out)" if "length (x d) = 64"
  proof -
    have i: "digest_inv (Reset d)" using that by (rule Reset_inv)
    obtain out where a: "stream_sum tf (Reset d) cs b = Inr (b @ out)"
        and sa: "serialize (blocks tf (h (Reset d)) (buffered (Reset d) @ concat cs @
            padding (len (Reset d) + of_nat (length (concat cs))))) = Inr out"
      using stream_sum_spec [OF i, of tf cs b] by blast
    obtain out' where b: "stream_sum tf New cs b = Inr (b @ out')"
        and sb: "serialize (blocks tf (h New) (buffered New @ concat cs @
            padding (len New + of_nat (length (concat cs))))) = Inr out'"
      using stream_sum_spec [OF New_inv, of tf cs b] by blast
    have "out' = out"
      using sa sb by (simp add: New_fields Reset_fields)
    with a b show ?thesis by simp
  qed
  then show ?thesis
    by (simp add: New_fields Reset_fields) (simp add: New_def iv_def)
qed

theorem Reset_New_initial_witness:
  "length (x (zero_digest\<lparr>nx := 7, len := 9\<rparr>)) = 64 \<and>
   h (Reset (zero_digest\<lparr>nx := 7, len := 9\<rparr>)) = iv \<and>
   nx (Reset (zero_digest\<lparr>nx := 7, len := 9\<rparr>)) = 0 \<and>
   len (Reset (zero_digest\<lparr>nx := 7, len := 9\<rparr>)) = 0 \<and>
   (\<exists>out. stream_sum sample_transform New [[1], [2, 3]] [] = Inr out \<and>
      stream_sum sample_transform (Reset (zero_digest\<lparr>nx := 7, len := 9\<rparr>)) [[1], [2, 3]] []
        = Inr out)"
proof -
  have l: "length (x (zero_digest\<lparr>nx := 7, len := 9\<rparr>)) = 64"
    by (simp add: zero_digest_def)
  show ?thesis
    using l Reset_New_initial [of "zero_digest\<lparr>nx := 7, len := 9\<rparr>" sample_transform
        "[[1], [2, 3]]" "[]"]
    by auto
qed

text \<open>
  C7 (fixed sizes). \<open>Size()\<close> is 32 and \<open>BlockSize()\<close> is 64 on every digest; the
  one-shot \<open>Sum\<close> returns exactly 32 bytes for every input, the empty one included; and
  whenever \<open>checkSum\<close> returns, whatever the state it ran on, it returns 32 bytes (on a
  reachable state it does return).
\<close>

theorem fixed_sizes:
  "digest_Size d = 32 \<and> digest_BlockSize d = 64 \<and>
   (\<exists>out. Sum tf data = Inr out \<and> length out = 32) \<and>
   (\<exists>out. Sum tf [] = Inr out \<and> length out = 32) \<and>
   (\<forall>d' out. checkSum tf d = Inr (d', out) \<longrightarrow> length out = 32) \<and>
   (reachable tf d \<longrightarrow> (\<exists>d' out. checkSum tf d = Inr (d', out)))"
proof -
  have "\<exists>out. Sum tf data = Inr out \<and> length out = 32"
    using Sum_spec [of tf data] by blast
  moreover have "\<exists>out. Sum tf [] = Inr out \<and> length out = 32"
    using Sum_spec [of tf "[]"] by blast
  moreover have "length out = 32" if "checkSum tf d = Inr (d', out)" for d' out
    using that by (rule checkSum_length)
  moreover have "\<exists>d' out. checkSum tf d = Inr (d', out)" if "reachable tf d"
    using checkSum_spec [OF reachable_inv [OF that], of tf] by blast
  ultimately show ?thesis
    by (simp add: digest_Size_def digest_BlockSize_def Size_def BlockSize_def)
qed

theorem fixed_sizes_witness:
  "reachable sample_transform New \<and>
   (\<exists>d' out. checkSum sample_transform New = Inr (d', out) \<and> length out = 32)"
proof -
  have r: "reachable sample_transform New" by (rule reachable_New)
  show ?thesis
    using r fixed_sizes [of New sample_transform] by blast
qed

text \<open>
  C8 (fill-count invariant). In every reachable digest the fill-count is within
  \<open>0..63\<close>. A \<open>Write\<close> of \<open>p\<close> keeps it so: the new fill-count is the old one plus
  \<open>len(p)\<close> modulo 64; every complete 64-byte block of the buffered bytes followed by
  \<open>p\<close> has gone through the transform, in order, and only the bytes after the last
  complete block are left in the buffer. In particular a buffer that reaches exactly 64
  bytes is transformed as one block and cleared within the call. The length counter
  grows by exactly \<open>len(p)\<close>, in \<open>uint64\<close> arithmetic.
\<close>

theorem fill_count_invariant:
  assumes "reachable tf d"
  shows "0 \<le> nx d \<and> nx d \<le> 63 \<and>
         (\<exists>d'. Write tf d p = Inr (d', int (length p)) \<and>
            0 \<le> nx d' \<and> nx d' \<le> 63 \<and>
            nx d' = (nx d + int (length p)) mod 64 \<and>
            h d' = blocks tf (h d) (buffered d @ p) \<and>
            buffered d' = tail64 (buffered d @ p) \<and>
            (nat (nx d) + length p < 64 \<longrightarrow> h d' = h d \<and> buffered d' = buffered d @ p) \<and>
            (nat (nx d) + length p = 64 \<longrightarrow>
               h d' = tf (h d) (buffered d @ p) \<and> nx d' = 0 \<and> buffered d' = []) \<and>
            len d' = len d + of_nat (length p) \<and>
            unat (len d') = (unat (len d) + length p) mod 2 ^ 64)"
proof -
  have inv: "digest_inv d" using assms by (rule reachable_inv)
  obtain d' where w: "Write tf d p = Inr (d', int (length p))" and i: "digest_inv d'"
      and hd: "h d' = blocks tf (h d) (buffered d @ p)"
      and bd: "buffered d' = tail64 (buffered d @ p)"
      and l: "len d' = len d + of_nat (length p)"
    using Write_spec [OF inv, of tf p] by blast
  have lb: "length (buffered d @ p) = nat (nx d) + length p"
    using inv by (simp add: buffered_def digest_inv_def)
  have "nat (nx d') = unat (len d') mod 64"
    using i by (simp add: digest_inv_def)
  also have "\<dots> = (nat (nx d) + length p) mod 64"
    by (simp only: l inv_len_step [OF inv])
  finally have k: "nat (nx d') = (nat (nx d) + length p) mod 64" .
  then have "int (nat (nx d')) = int ((nat (nx d) + length p) mod 64)"
    by simp
  moreover have pos: "0 \<le> nx d" "0 \<le> nx d'"
    using inv i by (simp_all add: digest_inv_def)
  ultimately have n: "nx d' = (nx d + int (length p)) mod 64"
    by (simp add: zmod_int)
  have short: "h d' = h d \<and> buffered d' = buffered d @ p"
    if "nat (nx d) + length p < 64"
    using that hd bd lb by (simp add: blocks_short tail64_short)
  have full: "h d' = tf (h d) (buffered d @ p) \<and> nx d' = 0 \<and> buffered d' = []"
    if "nat (nx d) + length p = 64"
  proof -
    define q where "q = buffered d @ p"
    have l64: "length q = 64"
      using that lb by (simp only: q_def)
    have "blocks tf (h d) q = blocks tf (tf (h d) (take 64 q)) (drop 64 q)"
      by (rule blocks_step) (simp only: l64)
    also have "\<dots> = tf (h d) (take 64 q)"
      by (rule blocks_short) (simp add: l64)
    also have "take 64 q = q"
      using l64 by simp
    finally have "h d' = tf (h d) (buffered d @ p)"
      using hd by (simp only: q_def)
    moreover have "nat (nx d') = 0"
      using k that by simp
    then have "nx d' = 0"
      using pos by simp
    moreover have "tail64 q = []"
      using l64 by (simp add: tail64_def)
    then have "buffered d' = []"
      using bd by (simp only: q_def)
    ultimately show ?thesis by simp
  qed
  have "unat (len d') = (unat (len d) + length p) mod 2 ^ 64"
    by (simp only: l unat_len_step)
  with inv i w l n hd bd short full show ?thesis
    by (simp add: digest_inv_def)
qed

text \<open>
  C8 on a run that reaches the boundary: three bytes are buffered in a fresh digest, and
  the next 61 bytes fill the buffer, which is transformed as one block and cleared.
\<close>

theorem fill_count_invariant_witness:
  "\<exists>d1 d2. reachable sample_transform New \<and>
     Write sample_transform New [1, 2, 3] = Inr (d1, 3) \<and>
     nx d1 = 3 \<and> h d1 = iv \<and> buffered d1 = [1, 2, 3] \<and> len d1 = 3 \<and>
     reachable sample_transform d1 \<and>
     Write sample_transform d1 (replicate 61 7) = Inr (d2, 61) \<and>
     nx d2 = 0 \<and> buffered d2 = [] \<and> len d2 = 64 \<and>
     h d2 = sample_transform iv ([1, 2, 3] @ replicate 61 7) \<and>
     h d2 \<noteq> iv"
proof -
  have r: "reachable sample_transform New" by (rule reachable_New)
  obtain d1 where w1: "Write sample_transform New [1, 2, 3] = Inr (d1, 3)"
      and n1: "nx d1 = 3" and h1: "h d1 = iv" and b1: "buffered d1 = [1, 2, 3]"
      and l1: "len d1 = 3"
    using fill_count_invariant [OF r, of "[1, 2, 3]"] by (auto simp add: New_fields)
  have r1: "reachable sample_transform d1"
    using r w1 by (rule reach_Write)
  obtain d2 where w2: "Write sample_transform d1 (replicate 61 7) = Inr (d2, 61)"
      and n2: "nx d2 = 0" and b2: "buffered d2 = []" and l2: "len d2 = 64"
      and h2: "h d2 = sample_transform iv ([1, 2, 3] @ replicate 61 7)"
    using fill_count_invariant [OF r1, of "replicate 61 7"] by (auto simp add: n1 h1 b1 l1)
  have "sample_transform iv ([1, 2, 3] @ replicate 61 7) \<noteq> iv"
    by (simp add: iv_def)
  with r w1 n1 h1 b1 l1 r1 w2 n2 b2 l2 h2 show ?thesis by auto
qed

text \<open>
  C9 (determinism). The digest depends on the input bytes alone: two digests, whatever
  was done with them before and whatever their fields hold (the arrays having their 64
  bytes), return after \<open>Reset\<close> and the same sequence of writes the same 32 bytes from the
  method \<open>Sum\<close>, and these are the bytes the one-shot \<open>Sum\<close> returns on the concatenated
  input.
\<close>

theorem digest_determinism:
  assumes "length (x d1) = 64" and "length (x d2) = 64"
  shows "\<exists>out. stream_sum tf (Reset d1) cs [] = Inr out \<and>
           stream_sum tf (Reset d2) cs [] = Inr out \<and>
           Sum tf (concat cs) = Inr out \<and> length out = 32"
proof -
  have run: "\<exists>out. stream_sum tf (Reset d) cs [] = Inr out \<and>
      serialize (blocks tf iv (concat cs @ padding (of_nat (length (concat cs))))) = Inr out"
    if "length (x d) = 64" for d
  proof -
    have "digest_inv (Reset d)" using that by (rule Reset_inv)
    from stream_sum_spec [OF this, of tf cs "[]"] show ?thesis
      by (auto simp add: Reset_fields)
  qed
  obtain o1 where a: "stream_sum tf (Reset d1) cs [] = Inr o1"
      and sa: "serialize (blocks tf iv (concat cs @ padding (of_nat (length (concat cs))))) = Inr o1"
    using run [OF assms(1)] by blast
  obtain o2 where b: "stream_sum tf (Reset d2) cs [] = Inr o2"
      and sb: "serialize (blocks tf iv (concat cs @ padding (of_nat (length (concat cs))))) = Inr o2"
    using run [OF assms(2)] by blast
  obtain o3 where c: "Sum tf (concat cs) = Inr o3" and l: "length o3 = 32"
      and sc: "serialize (blocks tf iv (concat cs @ padding (of_nat (length (concat cs))))) = Inr o3"
    using Sum_spec [of tf "concat cs"] by blast
  have "o1 = o3" "o2 = o3"
    using sa sb sc by simp_all
  with a b c l show ?thesis by simp
qed

theorem digest_determinism_witness:
  "length (x zero_digest) = 64 \<and> length (x (New\<lparr>x := replicate 64 7, nx := 3\<rparr>)) = 64 \<and>
   (\<exists>out. stream_sum sample_transform (Reset zero_digest) [[1, 2], [], [3]] [] = Inr out \<and>
      stream_sum sample_transform (Reset (New\<lparr>x := replicate 64 7, nx := 3\<rparr>))
        [[1, 2], [], [3]] [] = Inr out \<and>
      Sum sample_transform [1, 2, 3] = Inr out \<and> length out = 32)"
proof -
  have l1: "length (x zero_digest) = 64"
    by (simp add: zero_digest_def)
  have l2: "length (x (New\<lparr>x := replicate 64 7, nx := 3\<rparr>)) = 64"
    by simp
  show ?thesis
    using l1 l2 digest_determinism [OF l1 l2, of sample_transform "[[1, 2], [], [3]]"] by simp
qed

text \<open>
  C10 (append semantics of the method Sum). Whatever the digest state, a slice that
  \<open>Sum(b)\<close> returns has \<open>len(b) + 32\<close> bytes: the bytes of \<open>b\<close>, unchanged, followed by
  the 32-byte digest, that is, by the array \<open>checkSum\<close> returns on this state: the
  big-endian serialization of the state words after the padding. So \<open>Sum(nil)\<close> returns
  just the digest. The receiver is left as it was. On every reachable digest \<open>Sum(b)\<close>
  does return.
\<close>

theorem Sum_appends:
  "(\<forall>d' res. digest_Sum tf d b = Inr (d', res) \<longrightarrow>
      d' = d \<and> length res = length b + 32 \<and> take (length b) res = b \<and>
      (\<exists>d2. checkSum tf d = Inr (d2, drop (length b) res) \<and>
           serialize (h d2) = Inr (drop (length b) res)) \<and>
      digest_Sum tf d [] = Inr (d, drop (length b) res)) \<and>
   (reachable tf d \<longrightarrow>
      (\<exists>d2 hash. checkSum tf d = Inr (d2, hash) \<and> length hash = 32 \<and>
         serialize (blocks tf (h d) (buffered d @ padding (len d))) = Inr hash \<and>
         digest_Sum tf d b = Inr (d, b @ hash) \<and> digest_Sum tf d [] = Inr (d, hash)))"
proof -
  have "d' = d \<and> length res = length b + 32 \<and> take (length b) res = b \<and>
      (\<exists>d2. checkSum tf d = Inr (d2, drop (length b) res) \<and>
           serialize (h d2) = Inr (drop (length b) res)) \<and>
      digest_Sum tf d [] = Inr (d, drop (length b) res)"
    if "digest_Sum tf d b = Inr (d', res)" for d' res
  proof -
    from that obtain d2 hash where c: "checkSum tf d = Inr (d2, hash)" and r: "res = b @ hash"
      and d: "d' = d"
      by (auto simp add: digest_Sum_def Let_def and_then_def split: sum.splits)
    have "length hash = 32" using c by (rule checkSum_length)
    moreover have "serialize (h d2) = Inr hash"
      using c by (auto simp add: checkSum_def Let_def and_then_def split: sum.splits if_splits)
    ultimately show ?thesis
      using c r d by (simp add: digest_Sum_def and_then_def)
  qed
  moreover have "\<exists>d2 hash. checkSum tf d = Inr (d2, hash) \<and> length hash = 32 \<and>
      serialize (blocks tf (h d) (buffered d @ padding (len d))) = Inr hash \<and>
      digest_Sum tf d b = Inr (d, b @ hash) \<and> digest_Sum tf d [] = Inr (d, hash)"
    if "reachable tf d"
  proof -
    have inv: "digest_inv d" using that by (rule reachable_inv)
    obtain d2 hash where c: "checkSum tf d = Inr (d2, hash)" and l: "length hash = 32"
        and hh: "h d2 = blocks tf (h d) (buffered d @ padding (len d))"
        and s: "serialize (h d2) = Inr hash"
      using checkSum_spec [OF inv, of tf] by blast
    then show ?thesis
      by (auto simp add: digest_Sum_def and_then_def)
  qed
  ultimately show ?thesis by blast
qed

theorem Sum_appends_witness:
  "reachable sample_transform New \<and>
   (\<exists>d2 hash. checkSum sample_transform New = Inr (d2, hash) \<and> length hash = 32 \<and>
      serialize (blocks sample_transform iv (padding 0)) = Inr hash \<and>
      digest_Sum sample_transform New [9, 8] = Inr (New, [9, 8] @ hash) \<and>
      digest_Sum sample_transform New [] = Inr (New, hash) \<and>
      length ([9, 8] @ hash) = length [9, 8 :: byte] + 32 \<and>
      take (length [9, 8 :: byte]) ([9, 8] @ hash) = [9, 8])"
proof -
  have r: "reachable sample_transform New" by (rule reachable_New)
  obtain d2 hash where f: "checkSum sample_transform New = Inr (d2, hash)" "length hash = 32"
      "serialize (blocks sample_transform (h New) (buffered New @ padding (len New))) = Inr hash"
      "digest_Sum sample_transform New [9, 8] = Inr (New, [9, 8] @ hash)"
      "digest_Sum sample_transform New [] = Inr (New, hash)"
    using r Sum_appends [of sample_transform New "[9, 8]"] by blast
  have "length ([9, 8] @ hash) = length [9, 8 :: byte] + 32 \<and>
      take (length [9, 8 :: byte]) ([9, 8] @ hash) = [9, 8]"
    using f(4) Sum_appends [of sample_transform New "[9, 8]"] by blast
  with r f show ?thesis
    by (auto simp add: New_fields)
qed

end
